theory Spec2Isabelle
  imports Main "HOL-Library.Char_ord" "HOL-Library.List_Lexorder"
begin

section \<open>Data model\<close>

text \<open>
  Keys, values and bucket names are Go byte slices; a namespace is a Go string that the
  store converts with \<^verbatim>\<open>[]byte(namespace)\<close>. Both are sequences of 8-bit characters, so
  both are \<^typ>\<open>string\<close> here. The order on bytes is the unsigned order of \<^typ>\<open>char\<close>
  and the order on byte sequences is the lexicographic one, which is what
  \<^verbatim>\<open>bytes.Compare\<close> computes and what the engine sorts by.
\<close>

type_synonym bytes = string

text \<open>
  The engine, \<^verbatim>\<open>go.etcd.io/bbolt\<close>, is a library outside the repository. The store
  calls \<^verbatim>\<open>DB.View\<close>, \<^verbatim>\<open>DB.Update\<close>, \<^verbatim>\<open>Tx.Bucket\<close>, \<^verbatim>\<open>Tx.CreateBucketIfNotExists\<close>,
  \<^verbatim>\<open>Bucket.Get\<close>, \<^verbatim>\<open>Bucket.Put\<close>, \<^verbatim>\<open>Bucket.Delete\<close> and the cursor's \<^verbatim>\<open>First\<close>,
  \<^verbatim>\<open>Seek\<close> and \<^verbatim>\<open>Next\<close>; each is modelled by what the engine documents for it. A
  database is a sorted collection of named buckets and a bucket a sorted collection of
  key/value pairs. A read-write transaction commits when its function returns no error
  and is rolled back otherwise; every transaction fails on a closed database. A bucket
  name must not be blank; a key must not be blank nor longer than \<^verbatim>\<open>MaxKeySize\<close>, a
  value not longer than \<^verbatim>\<open>MaxValueSize\<close>. \<^verbatim>\<open>Get\<close> returns nil for a key that is
  not there, and a value of length zero is there. \<^verbatim>\<open>Delete\<close> of a key that is not
  there does nothing and returns no error. \<^verbatim>\<open>Seek\<close> moves to the key sought or, when
  it is not there, to the next one, and returns a nil key when none follows.

  A collection is the list of its entries in key order. The source comment of
  \<^verbatim>\<open>Put\<close> excludes nested buckets, so a bucket holds values only. Failures of the disk
  and the lifetime of the memory behind a returned slice are outside the model.
\<close>

type_synonym 'v node = "(bytes \<times> 'v) list"

type_synonym bucket = "bytes node"

datatype bolt_error =
    ErrDatabaseNotOpen
  | ErrBucketNameRequired
  | ErrKeyRequired
  | ErrKeyTooLarge
  | ErrValueTooLarge

text \<open>
  The store builds its own errors with \<^verbatim>\<open>fmt.Errorf\<close>; each message of the source is
  one constructor, carrying what the message is formatted from. An error of the engine
  that a method returns as it is, is \<open>Bolt\<close>.
\<close>

datatype error =
    BucketNotFound string
  | KeyNotFound bytes
  | CreateBucketError string bolt_error
  | OpenError string
  | UnknownEngine string
  | Bolt bolt_error

record DB =
  opened :: bool
  root :: "bucket node"

record BboltStore =
  db :: DB

section \<open>The engine\<close>

definition MaxKeySize :: nat where
  "MaxKeySize = 32768"

definition MaxValueSize :: nat where
  "MaxValueSize = 2147483646"

text \<open>
  \<^verbatim>\<open>Cursor.Seek\<close>: the cursor is the list of the entries from its position on; it
  stands on the first entry whose key is not below the one sought, and is empty (the
  nil key of the engine) when there is none.
\<close>

fun seek :: "bytes \<Rightarrow> 'v node \<Rightarrow> 'v node" where
  "seek key [] = []"
| "seek key ((k, v) # c) = (if k < key then seek key c else (k, v) # c)"

text \<open>The lookup shared by \<^verbatim>\<open>Bucket.Get\<close> and \<^verbatim>\<open>Tx.Bucket\<close>: seek, then compare.\<close>

definition node_get :: "'v node \<Rightarrow> bytes \<Rightarrow> 'v option" where
  "node_get n key =
     (case seek key n of
        [] \<Rightarrow> None
      | (k, v) # c \<Rightarrow> if k = key then Some v else None)"

text \<open>Insertion and removal at the position the seek finds.\<close>

fun node_put :: "bytes \<Rightarrow> 'v \<Rightarrow> 'v node \<Rightarrow> 'v node" where
  "node_put key val [] = [(key, val)]"
| "node_put key val ((k, v) # c) =
     (if k < key then (k, v) # node_put key val c
      else if k = key then (key, val) # c
      else (key, val) # (k, v) # c)"

fun node_del :: "bytes \<Rightarrow> 'v node \<Rightarrow> 'v node" where
  "node_del key [] = []"
| "node_del key ((k, v) # c) =
     (if k < key then (k, v) # node_del key c
      else if k = key then c
      else (k, v) # c)"

definition tx_Bucket :: "bucket node \<Rightarrow> bytes \<Rightarrow> bucket option" where
  "tx_Bucket tx name = node_get tx name"

text \<open>
  \<^verbatim>\<open>Tx.CreateBucketIfNotExists\<close> refuses a blank name; otherwise it returns the bucket
  of that name, created empty when there is none. The result is the transaction's
  root after the call together with the bucket.
\<close>

definition CreateBucketIfNotExists ::
    "bucket node \<Rightarrow> bytes \<Rightarrow> bolt_error + (bucket node \<times> bucket)" where
  "CreateBucketIfNotExists tx name =
     (if name = [] then Inl ErrBucketNameRequired
      else case tx_Bucket tx name of
             Some b \<Rightarrow> Inr (tx, b)
           | None \<Rightarrow> Inr (node_put name [] tx, []))"

definition bucket_Get :: "bucket \<Rightarrow> bytes \<Rightarrow> bytes option" where
  "bucket_Get b key = node_get b key"

definition bucket_Put :: "bucket \<Rightarrow> bytes \<Rightarrow> bytes \<Rightarrow> bolt_error + bucket" where
  "bucket_Put b key val =
     (if key = [] then Inl ErrKeyRequired
      else if length key > MaxKeySize then Inl ErrKeyTooLarge
      else if length val > MaxValueSize then Inl ErrValueTooLarge
      else Inr (node_put key val b))"

definition bucket_Delete :: "bucket \<Rightarrow> bytes \<Rightarrow> bolt_error + bucket" where
  "bucket_Delete b key = Inr (node_del key b)"

text \<open>
  \<^verbatim>\<open>DB.View\<close> and \<^verbatim>\<open>DB.Update\<close>: both fail on a closed database; an update commits
  the root its function returns, and leaves the database as it was when the function
  returns an error.
\<close>

definition View :: "DB \<Rightarrow> (bucket node \<Rightarrow> error + 'a) \<Rightarrow> error + 'a" where
  "View d fn = (if opened d then fn (root d) else Inl (Bolt ErrDatabaseNotOpen))"

definition Update :: "DB \<Rightarrow> (bucket node \<Rightarrow> error + bucket node) \<Rightarrow> error option \<times> DB" where
  "Update d fn =
     (if opened d then
        (case fn (root d) of
           Inl err \<Rightarrow> (Some err, d)
         | Inr r \<Rightarrow> (None, d\<lparr>root := r\<rparr>))
      else (Some (Bolt ErrDatabaseNotOpen), d))"

definition HasPrefix :: "bytes \<Rightarrow> bytes \<Rightarrow> bool" where
  "HasPrefix s prefix = (length s \<ge> length prefix \<and> take (length prefix) s = prefix)"

section \<open>The store\<close>

text \<open>
  A method that changes the database returns its error (\<open>None\<close> for Go's nil) and the
  store after the call. A bucket handed out by a transaction is a pointer into it; the
  model writes the changed bucket back under its name.
\<close>

definition Put :: "BboltStore \<Rightarrow> string \<Rightarrow> bytes \<Rightarrow> bytes \<Rightarrow> error option \<times> BboltStore" where
  "Put s namespace key val =
     (case Update (db s) (\<lambda>tx.
             case CreateBucketIfNotExists tx namespace of
               Inl err \<Rightarrow> Inl (CreateBucketError namespace err)
             | Inr (tx', b) \<Rightarrow>
                 (case bucket_Put b key val of
                    Inl err \<Rightarrow> Inl (Bolt err)
                  | Inr b' \<Rightarrow> Inr (node_put namespace b' tx')))
      of (err, d) \<Rightarrow> (err, s\<lparr>db := d\<rparr>))"

definition Get :: "BboltStore \<Rightarrow> string \<Rightarrow> bytes \<Rightarrow> error + bytes" where
  "Get s namespace key =
     View (db s) (\<lambda>tx.
       case tx_Bucket tx namespace of
         None \<Rightarrow> Inl (BucketNotFound namespace)
       | Some b \<Rightarrow>
           (case bucket_Get b key of
              None \<Rightarrow> Inl (KeyNotFound key)
            | Some v \<Rightarrow> Inr v))"

definition Delete :: "BboltStore \<Rightarrow> string \<Rightarrow> bytes \<Rightarrow> error option \<times> BboltStore" where
  "Delete s namespace key =
     (case Update (db s) (\<lambda>tx.
             case tx_Bucket tx namespace of
               None \<Rightarrow> Inl (BucketNotFound namespace)
             | Some b \<Rightarrow>
                 (case bucket_Delete b key of
                    Inl err \<Rightarrow> Inl (Bolt err)
                  | Inr b' \<Rightarrow> Inr (node_put namespace b' tx)))
      of (err, d) \<Rightarrow> (err, s\<lparr>db := d\<rparr>))"

text \<open>
  The two cursor loops. The cursor starts at \<^verbatim>\<open>c.First()\<close>, the whole bucket, or at
  \<^verbatim>\<open>c.Seek(prefix)\<close>; \<^verbatim>\<open>c.Next()\<close> drops the entry it stands on; the loop ends on the
  nil key, the empty cursor. Each round appends a copy of the key.
\<close>

fun ListKeys_loop :: "bucket \<Rightarrow> bytes list \<Rightarrow> bytes list" where
  "ListKeys_loop [] keys = keys"
| "ListKeys_loop ((k, v) # c) keys = ListKeys_loop c (keys @ [k])"

definition ListKeys :: "BboltStore \<Rightarrow> string \<Rightarrow> error + bytes list" where
  "ListKeys s namespace =
     View (db s) (\<lambda>tx.
       case tx_Bucket tx namespace of
         None \<Rightarrow> Inl (BucketNotFound namespace)
       | Some b \<Rightarrow> Inr (ListKeys_loop b []))"

fun KeysByPrefix_loop :: "bytes \<Rightarrow> bucket \<Rightarrow> bytes list \<Rightarrow> bytes list" where
  "KeysByPrefix_loop prefix [] matchedKeys = matchedKeys"
| "KeysByPrefix_loop prefix ((k, v) # c) matchedKeys =
     (if HasPrefix k prefix then KeysByPrefix_loop prefix c (matchedKeys @ [k])
      else matchedKeys)"

definition KeysByPrefix :: "BboltStore \<Rightarrow> string \<Rightarrow> bytes \<Rightarrow> error + bytes list" where
  "KeysByPrefix s namespace prefix =
     View (db s) (\<lambda>tx.
       case tx_Bucket tx namespace of
         None \<Rightarrow> Inl (BucketNotFound namespace)
       | Some b \<Rightarrow> Inr (KeysByPrefix_loop prefix (seek prefix b) []))"

definition Close :: "BboltStore \<Rightarrow> error option \<times> BboltStore" where
  "Close s = (None, s\<lparr>db := (db s)\<lparr>opened := False\<rparr>\<rparr>)"

text \<open>
  \<^verbatim>\<open>bbolt.Open(path, 0600, nil)\<close> depends on the file system, which is the parameter
  \<open>fs\<close>: at a path it answers with the message of the failure to open or create the
  file there, or with the buckets the file holds (none when the file is new). A
  handle that the engine returns is open.
\<close>

definition bbolt_Open :: "(string \<Rightarrow> string + bucket node) \<Rightarrow> string \<Rightarrow> string + DB" where
  "bbolt_Open fs path =
     (case fs path of
        Inl msg \<Rightarrow> Inl msg
      | Inr r \<Rightarrow> Inr \<lparr>opened = True, root = r\<rparr>)"

text \<open>
  The constructors return their result and the list of the paths they handed to the
  engine, in order, which is their only effect on the file system.
\<close>

definition NewBboltStore ::
    "(string \<Rightarrow> string + bucket node) \<Rightarrow> string \<Rightarrow> (error + BboltStore) \<times> string list" where
  "NewBboltStore fs path =
     (case bbolt_Open fs path of
        Inl msg \<Rightarrow> (Inl (OpenError msg), [path])
      | Inr d \<Rightarrow> (Inr \<lparr>db = d\<rparr>, [path]))"

definition NewStore ::
    "(string \<Rightarrow> string + bucket node) \<Rightarrow> string \<Rightarrow> string \<Rightarrow> (error + BboltStore) \<times> string list" where
  "NewStore fs engine path =
     (if engine = ''bbolt'' then NewBboltStore fs path
      else (Inl (UnknownEngine engine), []))"

section \<open>Histories of calls\<close>

text \<open>
  The calls that change the store, and a run of a list of them in order: each call
  is made on the store the one before left, and the run records every call with the
  error it returned.
\<close>

datatype op = OpPut string bytes bytes | OpDelete string bytes

fun apply_op :: "BboltStore \<Rightarrow> op \<Rightarrow> error option \<times> BboltStore" where
  "apply_op s (OpPut ns k v) = Put s ns k v"
| "apply_op s (OpDelete ns k) = Delete s ns k"

fun run :: "BboltStore \<Rightarrow> op list \<Rightarrow> (op \<times> error option) list \<times> BboltStore" where
  "run s [] = ([], s)"
| "run s (c # cs) =
     (case apply_op s c of
        (err, s1) \<Rightarrow> (case run s1 cs of (h, s2) \<Rightarrow> ((c, err) # h, s2)))"

text \<open>A call addresses a pair of a namespace and a key when it is a \<open>Put\<close> or a \<open>Delete\<close> of that key in that namespace.\<close>

fun addresses :: "string \<Rightarrow> bytes \<Rightarrow> op \<Rightarrow> bool" where
  "addresses ns k (OpPut n j v) = (n = ns \<and> j = k)"
| "addresses ns k (OpDelete n j) = (n = ns \<and> j = k)"

section \<open>What a store holds\<close>

text \<open>
  The vocabulary of the properties: the store seen as a dictionary of dictionaries,
  read off the stored entries without the engine's cursor. The store's error for a
  missing namespace and the one for a missing key are the not-found errors.
\<close>

definition keys :: "'v node \<Rightarrow> bytes list" where
  "keys n = map fst n"

definition namespaces :: "BboltStore \<Rightarrow> string set" where
  "namespaces s = set (keys (root (db s)))"

definition stored_keys :: "BboltStore \<Rightarrow> string \<Rightarrow> bytes set" where
  "stored_keys s ns =
     (case map_of (root (db s)) ns of None \<Rightarrow> {} | Some b \<Rightarrow> set (keys b))"

definition lookup :: "BboltStore \<Rightarrow> string \<Rightarrow> bytes \<Rightarrow> bytes option" where
  "lookup s ns k =
     (case map_of (root (db s)) ns of None \<Rightarrow> None | Some b \<Rightarrow> map_of b k)"

fun is_not_found :: "error \<Rightarrow> bool" where
  "is_not_found (BucketNotFound ns) = True"
| "is_not_found (KeyNotFound k) = True"
| "is_not_found e = False"

text \<open>
  The keys of a namespace that a history leaves, from the keys \<open>K\<close> it starts with: a
  \<open>Put\<close> into the namespace that returned no error adds its key, a \<open>Delete\<close> in the
  namespace that returned no error removes its key, and nothing else counts.
\<close>

fun live_keys :: "string \<Rightarrow> bytes set \<Rightarrow> (op \<times> error option) list \<Rightarrow> bytes set" where
  "live_keys ns K [] = K"
| "live_keys ns K ((OpPut n k v, err) # h) =
     live_keys ns (if n = ns \<and> err = None then insert k K else K) h"
| "live_keys ns K ((OpDelete n k, err) # h) =
     live_keys ns (if n = ns \<and> err = None then K - {k} else K) h"

text \<open>
  The engine keeps every collection in strictly ascending key order and stores neither
  a blank bucket name nor a blank key. This is the invariant of a database; the new
  database has it and every call of the store keeps it.
\<close>

definition sorted_keys :: "'v node \<Rightarrow> bool" where
  "sorted_keys n = sorted_wrt (<) (keys n)"

definition node_inv :: "'v node \<Rightarrow> bool" where
  "node_inv n = (sorted_keys n \<and> [] \<notin> set (keys n))"

definition db_inv :: "DB \<Rightarrow> bool" where
  "db_inv d = (node_inv (root d) \<and> list_all (\<lambda>e. node_inv (snd e)) (root d))"

text \<open>The bucket a \<open>Put\<close> writes into: the one of that name, or an empty one.\<close>

definition bucket_of :: "bucket node \<Rightarrow> bytes \<Rightarrow> bucket" where
  "bucket_of tx ns = (case node_get tx ns of None \<Rightarrow> [] | Some b \<Rightarrow> b)"

text \<open>
  Concrete stores and file systems for the examples: the store on a new file, a file
  system in which no file can be opened and one in which every file is new, the store of
  the prefix-scan example, and two lists of calls.
\<close>

definition new_store :: BboltStore where
  "new_store = \<lparr>db = \<lparr>opened = True, root = []\<rparr>\<rparr>"

definition no_file :: "string \<Rightarrow> string + bucket node" where
  "no_file path = Inl ''no such file or directory''"

definition new_file :: "string \<Rightarrow> string + bucket node" where
  "new_file path = Inr []"

definition sample_store :: BboltStore where
  "sample_store =
     \<lparr>db = \<lparr>opened = True,
            root = [(''ns'', [(''group:1'', ''g''), (''user:1'', ''a''), (''user:2'', ''b'')])]\<rparr>\<rparr>"

definition sample_calls :: "op list" where
  "sample_calls =
     [OpPut ''ns'' ''b'' ''1'', OpPut ''ns'' ''a'' ''2'', OpPut ''ns'' [] ''3'',
      OpPut ''other'' ''z'' ''4'', OpDelete ''ns'' ''b'', OpPut ''ns'' ''c'' ''5'']"

definition other_calls :: "op list" where
  "other_calls =
     [OpPut ''ns'' ''j'' ''w'', OpDelete ''ns'' ''a'', OpPut ''other'' ''k'' ''x'',
      OpDelete ''other'' ''k'', OpPut ''ns'' ''a'' ''y'']"

section \<open>Properties of the engine's collections\<close>

lemma seek_Nil_key: "seek [] n = n"
  by (cases n) auto

lemma ListKeys_loop_eq: "ListKeys_loop b acc = acc @ keys b"
  by (induction b arbitrary: acc) (auto simp: keys_def)

lemma HasPrefix_Nil: "HasPrefix k []"
  by (simp add: HasPrefix_def)

lemma KeysByPrefix_loop_Nil: "KeysByPrefix_loop [] b acc = acc @ keys b"
  by (induction b arbitrary: acc) (auto simp: HasPrefix_Nil keys_def)

lemma node_get_node_put_same: "node_get (node_put key val n) key = Some val"
  by (induction n) (auto simp: node_get_def)

lemma node_get_node_put_other: "a \<noteq> b \<Longrightarrow> node_get (node_put a x n) b = node_get n b"
  by (induction n) (auto simp: node_get_def)

lemma node_put_node_put: "node_put k v (node_put k w n) = node_put k v n"
  by (induction n) auto

lemma node_put_node_get: "node_get n k = Some v \<Longrightarrow> node_put k v n = n"
  by (induction n) (auto simp: node_get_def split: if_splits)

lemma node_del_absent: "node_get n k = None \<Longrightarrow> node_del k n = n"
  by (induction n) (auto simp: node_get_def split: if_splits)

lemma keys_simps: "keys [] = []" "keys ((k, v) # n) = k # keys n"
  by (simp_all add: keys_def)

lemma sorted_keys_Cons:
  "sorted_keys ((k, v) # n) \<longleftrightarrow> (\<forall>x\<in>set (keys n). k < x) \<and> sorted_keys n"
  by (simp add: sorted_keys_def keys_def)

lemma above_mono: "\<forall>x\<in>set ks. a < x \<Longrightarrow> k \<le> a \<Longrightarrow> \<forall>x\<in>set ks. (k::bytes) < x"
  by (meson order.strict_trans1)

lemma node_get_Cons:
  "node_get ((a, v) # n) k = (if a < k then node_get n k else if a = k then Some v else None)"
  by (simp add: node_get_def)

lemma node_get_Nil: "node_get [] k = None"
  by (simp add: node_get_def)

lemma map_of_absent: "k \<notin> set (keys n) \<Longrightarrow> map_of n k = None"
  by (simp add: keys_def map_of_eq_None_iff)

lemma node_get_absent: "k \<notin> set (keys n) \<Longrightarrow> node_get n k = None"
  by (induction n) (auto simp: node_get_Nil node_get_Cons keys_simps)

lemma node_get_map_of: "sorted_keys n \<Longrightarrow> node_get n k = map_of n k"
proof (induction n)
  case Nil
  show ?case by (simp add: node_get_def)
next
  case (Cons e n)
  obtain a v where e: "e = (a, v)" by (cases e)
  from Cons.prems have above: "\<forall>x\<in>set (keys n). a < x" and sn: "sorted_keys n"
    by (simp_all add: e sorted_keys_Cons)
  show ?case
  proof (cases "a < k")
    case True
    then show ?thesis using Cons.IH [OF sn] by (auto simp: e node_get_Cons)
  next
    case False
    then have "k \<le> a" by simp
    from above_mono [OF above this] have "k \<notin> set (keys n)" by auto
    then have "map_of n k = None" by (rule map_of_absent)
    then show ?thesis using False by (simp add: e node_get_Cons)
  qed
qed

lemma keys_node_put: "set (keys (node_put k v n)) = insert k (set (keys n))"
proof (induction n)
  case Nil
  show ?case by (simp add: keys_simps)
next
  case (Cons e n)
  obtain a w where e: "e = (a, w)" by (cases e)
  show ?case using Cons.IH by (auto simp: e keys_simps)
qed

lemma sorted_node_put: "sorted_keys n \<Longrightarrow> sorted_keys (node_put k v n)"
proof (induction n)
  case Nil
  show ?case by (simp add: sorted_keys_def keys_def)
next
  case (Cons e n)
  obtain a w where e: "e = (a, w)" by (cases e)
  from Cons.prems have above: "\<forall>x\<in>set (keys n). a < x" and sn: "sorted_keys n"
    by (simp_all add: e sorted_keys_Cons)
  show ?case
  proof (cases "a < k")
    case True
    then have "\<forall>x\<in>set (keys (node_put k v n)). a < x"
      using above by (simp add: keys_node_put)
    then show ?thesis using True Cons.IH [OF sn] by (simp add: e sorted_keys_Cons)
  next
    case False
    note nlt = this
    then have ka: "k \<le> a" by simp
    show ?thesis
    proof (cases "a = k")
      case True
      then show ?thesis using above sn nlt by (simp add: e sorted_keys_Cons)
    next
      case False
      then have "k < a" using ka by simp
      moreover have "\<forall>x\<in>set (keys n). k < x" by (rule above_mono [OF above ka])
      ultimately show ?thesis using above sn nlt
        by (simp add: e sorted_keys_Cons keys_simps)
    qed
  qed
qed

lemma keys_node_del_subset: "set (keys (node_del k n)) \<subseteq> set (keys n)"
proof (induction n)
  case Nil
  show ?case by simp
next
  case (Cons e n)
  obtain a w where e: "e = (a, w)" by (cases e)
  show ?case using Cons.IH by (auto simp: e keys_simps)
qed

lemma sorted_node_del: "sorted_keys n \<Longrightarrow> sorted_keys (node_del k n)"
proof (induction n)
  case Nil
  show ?case by (simp add: sorted_keys_def keys_def)
next
  case (Cons e n)
  obtain a w where e: "e = (a, w)" by (cases e)
  from Cons.prems have above: "\<forall>x\<in>set (keys n). a < x" and sn: "sorted_keys n"
    by (simp_all add: e sorted_keys_Cons)
  have "\<forall>x\<in>set (keys (node_del k n)). a < x"
    using above keys_node_del_subset [of k n] by blast
  then show ?case using Cons.IH [OF sn] above sn
    by (simp add: e sorted_keys_Cons)
qed

lemma map_of_node_put: "map_of (node_put k v n) = (map_of n)(k \<mapsto> v)"
proof (induction n)
  case Nil
  show ?case by simp
next
  case (Cons e n)
  obtain a w where e: "e = (a, w)" by (cases e)
  show ?case using Cons.IH by (auto simp: e)
qed

lemma map_of_node_del: "sorted_keys n \<Longrightarrow> map_of (node_del k n) = (map_of n)(k := None)"
proof (induction n)
  case Nil
  show ?case by simp
next
  case (Cons e n)
  obtain a w where e: "e = (a, w)" by (cases e)
  from Cons.prems have above: "\<forall>x\<in>set (keys n). a < x" and sn: "sorted_keys n"
    by (simp_all add: e sorted_keys_Cons)
  show ?case
  proof (cases "a < k")
    case True
    then show ?thesis using Cons.IH [OF sn] by (auto simp: e)
  next
    case False
    then have "k \<le> a" by simp
    from above_mono [OF above this] have "k \<notin> set (keys n)" by auto
    then have "map_of n k = None" by (rule map_of_absent)
    then show ?thesis using False by (auto simp: e fun_eq_iff)
  qed
qed


lemma HasPrefix_simps:
  "HasPrefix s [] = True"
  "HasPrefix [] (x # p) = False"
  "HasPrefix (y # s) (x # p) = (x = y \<and> HasPrefix s p)"
  by (auto simp: HasPrefix_def)

lemma HasPrefix_iff_append: "HasPrefix s p \<longleftrightarrow> (\<exists>t. s = p @ t)"
proof
  assume "HasPrefix s p"
  then have "s = p @ drop (length p) s"
    by (metis HasPrefix_def append_take_drop_id)
  then show "\<exists>t. s = p @ t" ..
next
  assume "\<exists>t. s = p @ t"
  then show "HasPrefix s p" by (auto simp: HasPrefix_def)
qed

lemma HasPrefix_le: "HasPrefix s p \<Longrightarrow> p \<le> s"
proof (induction p arbitrary: s)
  case Nil
  show ?case by simp
next
  case (Cons x p)
  then show ?case by (cases s) (auto simp: HasPrefix_simps)
qed

lemma HasPrefix_convex: "p \<le> b \<Longrightarrow> b \<le> c \<Longrightarrow> HasPrefix c p \<Longrightarrow> HasPrefix b p"
proof (induction p arbitrary: b c)
  case Nil
  show ?case by (simp add: HasPrefix_simps)
next
  case (Cons x p)
  from Cons.prems(3) obtain c' where c: "c = x # c'" and hc: "HasPrefix c' p"
    by (cases c) (auto simp: HasPrefix_simps)
  from Cons.prems(1) obtain z b' where b: "b = z # b'"
    by (cases b) auto
  from Cons.prems(1) have 1: "x < z \<or> x = z \<and> p \<le> b'" by (simp add: b)
  from Cons.prems(2) have 2: "z < x \<or> z = x \<and> b' \<le> c'" by (simp add: b c)
  from 1 2 have zx: "z = x" and pb: "p \<le> b'" and bc: "b' \<le> c'" by auto
  from Cons.IH [OF pb bc hc] show ?case by (simp add: b zx HasPrefix_simps)
qed

lemma sorted_seek: "sorted_keys n \<Longrightarrow> sorted_keys (seek p n)"
proof (induction n)
  case Nil
  show ?case by (simp add: sorted_keys_def keys_def)
next
  case (Cons e n)
  obtain a v where e: "e = (a, v)" by (cases e)
  from Cons.prems have sn: "sorted_keys n" by (simp add: e sorted_keys_Cons)
  show ?case using Cons.IH [OF sn] Cons.prems by (simp add: e)
qed

lemma seek_lower_bound: "sorted_keys n \<Longrightarrow> \<forall>x\<in>set (keys (seek p n)). p \<le> x"
proof (induction n)
  case Nil
  show ?case by (simp add: keys_simps)
next
  case (Cons e n)
  obtain a v where e: "e = (a, v)" by (cases e)
  from Cons.prems have above: "\<forall>x\<in>set (keys n). a < x" and sn: "sorted_keys n"
    by (simp_all add: e sorted_keys_Cons)
  show ?case
  proof (cases "a < p")
    case True
    then show ?thesis using Cons.IH [OF sn] by (simp add: e)
  next
    case False
    then have pa: "p \<le> a" by simp
    from above_mono [OF above pa] have "\<forall>x\<in>set (keys n). p \<le> x" by auto
    then show ?thesis using False pa by (simp add: e keys_simps)
  qed
qed

lemma filter_seek:
  "filter (\<lambda>k. HasPrefix k p) (keys (seek p n)) = filter (\<lambda>k. HasPrefix k p) (keys n)"
proof (induction n)
  case Nil
  show ?case by simp
next
  case (Cons e n)
  obtain a v where e: "e = (a, v)" by (cases e)
  have "a < p \<Longrightarrow> \<not> HasPrefix a p" using HasPrefix_le [of a p] by auto
  then show ?case using Cons.IH by (simp add: e keys_simps)
qed

lemma KeysByPrefix_loop_filter:
  "sorted_keys n \<Longrightarrow> \<forall>x\<in>set (keys n). p \<le> x \<Longrightarrow>
   KeysByPrefix_loop p n acc = acc @ filter (\<lambda>k. HasPrefix k p) (keys n)"
proof (induction n arbitrary: acc)
  case Nil
  show ?case by (simp add: keys_simps)
next
  case (Cons e n)
  obtain a v where e: "e = (a, v)" by (cases e)
  from Cons.prems have above: "\<forall>x\<in>set (keys n). a < x" and sn: "sorted_keys n"
    and pa: "p \<le> a" and lower: "\<forall>x\<in>set (keys n). p \<le> x"
    by (simp_all add: e sorted_keys_Cons keys_simps)
  show ?case
  proof (cases "HasPrefix a p")
    case True
    then show ?thesis using Cons.IH [OF sn lower] by (simp add: e keys_simps)
  next
    case False
    have "\<forall>x\<in>set (keys n). \<not> HasPrefix x p"
    proof
      fix x assume "x \<in> set (keys n)"
      then have "a \<le> x" using above by auto
      then show "\<not> HasPrefix x p" using HasPrefix_convex [OF pa _] False by blast
    qed
    then have "filter (\<lambda>k. HasPrefix k p) (keys n) = []" by (simp add: filter_empty_conv)
    then show ?thesis using False by (simp add: e keys_simps)
  qed
qed

lemma KeysByPrefix_loop_seek:
  "sorted_keys n \<Longrightarrow>
   KeysByPrefix_loop p (seek p n) [] = filter (\<lambda>k. HasPrefix k p) (keys n)"
  using KeysByPrefix_loop_filter [OF sorted_seek seek_lower_bound, of n p "[]"]
  by (simp add: filter_seek)


section \<open>The store's methods, unfolded\<close>

lemma store_eq: "(s :: BboltStore)\<lparr>db := db s\<rparr> = s"
  by simp

lemma Put_eq:
  "Put s ns k v =
     (if \<not> opened (db s) then (Some (Bolt ErrDatabaseNotOpen), s)
      else if ns = [] then (Some (CreateBucketError ns ErrBucketNameRequired), s)
      else if k = [] then (Some (Bolt ErrKeyRequired), s)
      else if length k > MaxKeySize then (Some (Bolt ErrKeyTooLarge), s)
      else if length v > MaxValueSize then (Some (Bolt ErrValueTooLarge), s)
      else (None, s\<lparr>db := (db s)\<lparr>root := node_put ns (node_put k v (bucket_of (root (db s)) ns)) (root (db s))\<rparr>\<rparr>))"
  by (simp add: Put_def Update_def CreateBucketIfNotExists_def tx_Bucket_def bucket_Put_def
      bucket_of_def node_put_node_put split: option.split)

lemma Put_succeeds:
  "fst (Put s ns k v) = None \<longleftrightarrow>
     opened (db s) \<and> ns \<noteq> [] \<and> k \<noteq> [] \<and> length k \<le> MaxKeySize \<and> length v \<le> MaxValueSize"
  by (auto simp: Put_eq)

lemma Delete_eq:
  "Delete s ns k =
     (if \<not> opened (db s) then (Some (Bolt ErrDatabaseNotOpen), s)
      else case node_get (root (db s)) ns of
             None \<Rightarrow> (Some (BucketNotFound ns), s)
           | Some b \<Rightarrow> (None, s\<lparr>db := (db s)\<lparr>root := node_put ns (node_del k b) (root (db s))\<rparr>\<rparr>))"
  by (simp add: Delete_def Update_def tx_Bucket_def bucket_Delete_def split: option.split)

lemma Get_eq:
  "Get s ns k =
     (if \<not> opened (db s) then Inl (Bolt ErrDatabaseNotOpen)
      else case node_get (root (db s)) ns of
             None \<Rightarrow> Inl (BucketNotFound ns)
           | Some b \<Rightarrow> (case node_get b k of None \<Rightarrow> Inl (KeyNotFound k) | Some v \<Rightarrow> Inr v))"
  by (simp add: Get_def View_def tx_Bucket_def bucket_Get_def split: option.split)

lemma ListKeys_eq:
  "ListKeys s ns =
     (if \<not> opened (db s) then Inl (Bolt ErrDatabaseNotOpen)
      else case node_get (root (db s)) ns of
             None \<Rightarrow> Inl (BucketNotFound ns)
           | Some b \<Rightarrow> Inr (keys b))"
  by (simp add: ListKeys_def View_def tx_Bucket_def ListKeys_loop_eq split: option.split)

lemma KeysByPrefix_eq:
  "KeysByPrefix s ns p =
     (if \<not> opened (db s) then Inl (Bolt ErrDatabaseNotOpen)
      else case node_get (root (db s)) ns of
             None \<Rightarrow> Inl (BucketNotFound ns)
           | Some b \<Rightarrow> Inr (KeysByPrefix_loop p (seek p b) []))"
  by (simp add: KeysByPrefix_def View_def tx_Bucket_def)

section \<open>The invariant and the dictionary view\<close>

lemma keys_dom: "set (keys n) = dom (map_of n)"
  by (simp add: keys_def dom_map_of_conv_image_fst)

lemma keys_node_del: "sorted_keys n \<Longrightarrow> set (keys (node_del k n)) = set (keys n) - {k}"
  by (simp add: keys_dom map_of_node_del)

lemma set_node_put_subset: "set (node_put k v n) \<subseteq> insert (k, v) (set n)"
proof (induction n)
  case Nil
  show ?case by simp
next
  case (Cons e n)
  obtain a w where e: "e = (a, w)" by (cases e)
  show ?case using Cons.IH by (auto simp: e)
qed

lemma node_get_in_set: "node_get n k = Some v \<Longrightarrow> (k, v) \<in> set n"
proof (induction n)
  case Nil
  then show ?case by (simp add: node_get_Nil)
next
  case (Cons e n)
  obtain a w where e: "e = (a, w)" by (cases e)
  show ?case using Cons by (auto simp: e node_get_Cons split: if_splits)
qed

lemma node_inv_Nil: "node_inv []"
  by (simp add: node_inv_def sorted_keys_def keys_def)

lemma node_inv_node_put: "node_inv n \<Longrightarrow> k \<noteq> [] \<Longrightarrow> node_inv (node_put k v n)"
  by (simp add: node_inv_def sorted_node_put keys_node_put)

lemma node_inv_node_del: "node_inv n \<Longrightarrow> node_inv (node_del k n)"
  using keys_node_del_subset [of k n] by (auto simp: node_inv_def sorted_node_del)

lemma db_inv_bucket_of: "db_inv d \<Longrightarrow> node_inv (bucket_of (root d) ns)"
proof (cases "node_get (root d) ns")
  case None
  then show ?thesis by (simp add: bucket_of_def node_inv_Nil)
next
  case (Some b)
  assume "db_inv d"
  then have "list_all (\<lambda>e. node_inv (snd e)) (root d)" by (simp add: db_inv_def)
  moreover have "(ns, b) \<in> set (root d)" using Some by (rule node_get_in_set)
  ultimately have "node_inv b" by (auto simp: list_all_iff)
  then show ?thesis using Some by (simp add: bucket_of_def)
qed

lemma db_inv_put_bucket:
  assumes "db_inv d" and "ns \<noteq> []" and "node_inv b"
  shows "db_inv (d\<lparr>root := node_put ns b (root d)\<rparr>)"
proof -
  from assms(1) have r: "node_inv (root d)" and a: "list_all (\<lambda>e. node_inv (snd e)) (root d)"
    by (simp_all add: db_inv_def)
  have "list_all (\<lambda>e. node_inv (snd e)) (node_put ns b (root d))"
    using a assms(3) set_node_put_subset [of ns b "root d"] by (auto simp: list_all_iff)
  then show ?thesis using node_inv_node_put [OF r assms(2)] by (simp add: db_inv_def)
qed

lemma db_inv_Put: "db_inv (db s) \<Longrightarrow> db_inv (db (snd (Put s ns k v)))"
  by (simp add: Put_eq db_inv_put_bucket db_inv_bucket_of node_inv_node_put)

lemma node_get_name_nonempty: "node_inv n \<Longrightarrow> node_get n k = Some v \<Longrightarrow> k \<noteq> []"
  using node_get_in_set [of n k v] by (force simp: node_inv_def keys_def)

lemma db_inv_Delete: "db_inv (db s) \<Longrightarrow> db_inv (db (snd (Delete s ns k)))"
proof (cases "node_get (root (db s)) ns")
  case None
  assume "db_inv (db s)"
  then show ?thesis using None by (simp add: Delete_eq)
next
  case (Some b)
  assume inv: "db_inv (db s)"
  then have "node_inv (bucket_of (root (db s)) ns)" by (rule db_inv_bucket_of)
  then have "node_inv (node_del k b)" using Some by (simp add: bucket_of_def node_inv_node_del)
  moreover have "ns \<noteq> []" using inv Some node_get_name_nonempty [of "root (db s)" ns b]
    by (simp add: db_inv_def)
  ultimately show ?thesis using inv Some by (simp add: Delete_eq db_inv_put_bucket)
qed

lemma db_inv_new_store: "db_inv (db new_store)"
  by (simp add: new_store_def db_inv_def node_inv_Nil)


lemma root_get: "db_inv d \<Longrightarrow> node_get (root d) ns = map_of (root d) ns"
  by (simp add: db_inv_def node_inv_def node_get_map_of)

lemma bucket_inv: "db_inv d \<Longrightarrow> map_of (root d) ns = Some b \<Longrightarrow> node_inv b"
proof -
  assume "db_inv d" and "map_of (root d) ns = Some b"
  then have "list_all (\<lambda>e. node_inv (snd e)) (root d)" and "(ns, b) \<in> set (root d)"
    by (simp_all add: db_inv_def map_of_SomeD)
  then show "node_inv b" by (auto simp: list_all_iff)
qed

lemma bucket_get: "db_inv d \<Longrightarrow> map_of (root d) ns = Some b \<Longrightarrow> node_get b k = map_of b k"
  using bucket_inv [of d ns b] by (simp add: node_inv_def node_get_map_of)

lemma namespaces_iff: "ns \<in> namespaces s \<longleftrightarrow> map_of (root (db s)) ns \<noteq> None"
  by (simp add: namespaces_def keys_dom dom_def)

lemma stored_keys_iff: "k \<in> stored_keys s ns \<longleftrightarrow> lookup s ns k \<noteq> None"
  by (auto simp: stored_keys_def lookup_def keys_dom split: option.splits)

lemma Get_lookup:
  assumes "opened (db s)" and "db_inv (db s)"
  shows "Get s ns k =
     (if ns \<notin> namespaces s then Inl (BucketNotFound ns)
      else case lookup s ns k of None \<Rightarrow> Inl (KeyNotFound k) | Some v \<Rightarrow> Inr v)"
proof (cases "map_of (root (db s)) ns")
  case None
  then show ?thesis using assms by (simp add: Get_eq root_get namespaces_iff)
next
  case (Some b)
  then show ?thesis using assms bucket_get [OF assms(2) Some, of k]
    by (simp add: Get_eq root_get namespaces_iff lookup_def)
qed

lemma opened_Put: "opened (db (snd (Put s ns k v))) = opened (db s)"
  by (simp add: Put_eq)

lemma opened_Delete: "opened (db (snd (Delete s ns k))) = opened (db s)"
  by (simp add: Delete_eq split: option.split)

lemma Delete_lookup:
  assumes "opened (db s)" and "db_inv (db s)" and "ns \<in> namespaces s"
  shows "fst (Delete s ns k) = None"
    and "lookup (snd (Delete s ns k)) n j = (if n = ns \<and> j = k then None else lookup s n j)"
    and "namespaces (snd (Delete s ns k)) = namespaces s"
proof -
  from assms(3) obtain b where b: "map_of (root (db s)) ns = Some b"
    by (auto simp: namespaces_iff)
  then have g: "node_get (root (db s)) ns = Some b" using assms(2) by (simp add: root_get)
  have sb: "sorted_keys b" using bucket_inv [OF assms(2) b] by (simp add: node_inv_def)
  show "fst (Delete s ns k) = None" using assms(1) g by (simp add: Delete_eq)
  show "lookup (snd (Delete s ns k)) n j = (if n = ns \<and> j = k then None else lookup s n j)"
    using assms(1) g b sb by (simp add: Delete_eq lookup_def map_of_node_put map_of_node_del)
  have "ns \<in> set (keys (root (db s)))"
    using node_get_in_set [OF g] by (force simp: keys_def)
  then show "namespaces (snd (Delete s ns k)) = namespaces s"
    using assms(1) g by (simp add: Delete_eq namespaces_def keys_node_put insert_absorb)
qed

lemma Delete_absent_namespace:
  assumes "opened (db s)" and "db_inv (db s)" and "ns \<notin> namespaces s"
  shows "Delete s ns k = (Some (BucketNotFound ns), s)"
  using assms by (simp add: Delete_eq root_get namespaces_iff)

lemma Delete_absent_key:
  assumes "opened (db s)" and "db_inv (db s)" and "ns \<in> namespaces s" and "k \<notin> stored_keys s ns"
  shows "Delete s ns k = (None, s)"
proof -
  from assms(3) obtain b where b: "map_of (root (db s)) ns = Some b"
    by (auto simp: namespaces_iff)
  then have g: "node_get (root (db s)) ns = Some b" using assms(2) by (simp add: root_get)
  have "map_of b k = None" using assms(4) b by (simp add: stored_keys_iff lookup_def)
  then have "node_get b k = None" using bucket_get [OF assms(2) b, of k] by simp
  then have "node_del k b = b" by (rule node_del_absent)
  then show ?thesis using assms(1) g by (simp add: Delete_eq node_put_node_get)
qed

lemma Delete_then_Get:
  assumes "opened (db s)" and "db_inv (db s)"
  shows "\<exists>e. Get (snd (Delete s ns k)) ns k = Inl e \<and> is_not_found e"
proof (cases "ns \<in> namespaces s")
  case False
  then show ?thesis using assms
    by (simp add: Delete_absent_namespace Get_lookup)
next
  case True
  have o: "opened (db (snd (Delete s ns k)))" using assms(1) by (simp add: opened_Delete)
  have i: "db_inv (db (snd (Delete s ns k)))" using assms(2) by (rule db_inv_Delete)
  show ?thesis
    by (simp add: Get_lookup [OF o i] Delete_lookup(2,3) [OF assms True] True)
qed

section \<open>Histories and examples\<close>

lemmas eval_defs = new_store_def sample_store_def db_inv_def node_inv_def sorted_keys_def keys_def
  namespaces_def stored_keys_def lookup_def MaxKeySize_def MaxValueSize_def bucket_of_def
  node_get_def

lemma opened_sample: "opened (db sample_store)"
  by (simp add: sample_store_def)

lemma db_inv_sample: "db_inv (db sample_store)"
  by (simp add: eval_defs)

lemma sorted_keys_distinct: "sorted_keys n \<Longrightarrow> distinct (keys n)"
  by (simp add: sorted_keys_def strict_sorted_iff)

lemma no_blank_namespace: "db_inv (db s) \<Longrightarrow> [] \<notin> namespaces s"
  by (simp add: db_inv_def node_inv_def namespaces_def)

lemma no_blank_key: "db_inv (db s) \<Longrightarrow> [] \<notin> stored_keys s ns"
proof (cases "map_of (root (db s)) ns")
  case None
  then show ?thesis by (simp add: stored_keys_def)
next
  case (Some b)
  assume "db_inv (db s)"
  from bucket_inv [OF this Some] show ?thesis using Some
    by (simp add: stored_keys_def node_inv_def)
qed

lemma stored_keys_bucket_of:
  "db_inv (db s) \<Longrightarrow> set (keys (bucket_of (root (db s)) ns)) = stored_keys s ns"
  by (simp add: bucket_of_def stored_keys_def root_get keys_def split: option.split)

lemma Put_failed: "fst (Put s ns k v) \<noteq> None \<Longrightarrow> snd (Put s ns k v) = s"
  by (simp add: Put_eq split: if_splits)

lemma Delete_failed: "fst (Delete s ns k) \<noteq> None \<Longrightarrow> snd (Delete s ns k) = s"
  by (simp add: Delete_eq split: if_splits option.splits)

lemma Put_stored_keys:
  assumes "db_inv (db s)" and "fst (Put s ns k v) = None"
  shows "stored_keys (snd (Put s ns k v)) n =
           (if n = ns then insert k (stored_keys s ns) else stored_keys s n)"
proof -
  let ?b = "node_put k v (bucket_of (root (db s)) ns)"
  from assms(2) have "snd (Put s ns k v) = s\<lparr>db := (db s)\<lparr>root := node_put ns ?b (root (db s))\<rparr>\<rparr>"
    by (simp add: Put_eq split: if_splits)
  then have "stored_keys (snd (Put s ns k v)) n =
      (case ((map_of (root (db s)))(ns \<mapsto> ?b)) n of None \<Rightarrow> {} | Some b \<Rightarrow> set (keys b))"
    by (simp add: stored_keys_def map_of_node_put)
  then show ?thesis
    using stored_keys_bucket_of [OF assms(1), of ns]
    by (simp add: keys_node_put stored_keys_def)
qed

lemma Delete_stored_keys:
  assumes "opened (db s)" and "db_inv (db s)" and "fst (Delete s ns k) = None"
  shows "stored_keys (snd (Delete s ns k)) n =
           (if n = ns then stored_keys s ns - {k} else stored_keys s n)"
proof -
  have ns: "ns \<in> namespaces s"
  proof (rule ccontr)
    assume "ns \<notin> namespaces s"
    from Delete_absent_namespace [OF assms(1,2) this, of k] assms(3) show False by simp
  qed
  have "\<And>j. (j \<in> stored_keys (snd (Delete s ns k)) n) =
      (j \<in> (if n = ns then stored_keys s ns - {k} else stored_keys s n))"
    by (simp add: stored_keys_iff Delete_lookup(2) [OF assms(1,2) ns])
  then show ?thesis by blast
qed

lemma apply_op_keeps:
  assumes "opened (db s)" and "db_inv (db s)" and "apply_op s c = (err, s1)"
  shows "opened (db s1) \<and> db_inv (db s1)"
proof (cases c)
  case (OpPut n k v)
  then have "s1 = snd (Put s n k v)" using assms(3) by simp
  then show ?thesis using assms(1,2) by (simp add: opened_Put db_inv_Put)
next
  case (OpDelete n k)
  then have "s1 = snd (Delete s n k)" using assms(3) by simp
  then show ?thesis using assms(1,2) by (simp add: opened_Delete db_inv_Delete)
qed

lemma apply_op_live_keys:
  assumes "opened (db s)" and "db_inv (db s)" and "apply_op s c = (err, s1)"
  shows "live_keys ns (stored_keys s ns) ((c, err) # h) = live_keys ns (stored_keys s1 ns) h"
proof (cases c)
  case (OpPut n k v)
  then have p: "Put s n k v = (err, s1)" using assms(3) by simp
  show ?thesis
  proof (cases "err = None")
    case True
    then have "fst (Put s n k v) = None" and "s1 = snd (Put s n k v)" using p by simp_all
    then have "stored_keys s1 ns = (if ns = n then insert k (stored_keys s n) else stored_keys s ns)"
      using Put_stored_keys [OF assms(2), of n k v ns] by simp
    then show ?thesis using True OpPut by auto
  next
    case False
    then have "s1 = s" using p Put_failed [of s n k v] by simp
    then show ?thesis using False OpPut by auto
  qed
next
  case (OpDelete n k)
  then have p: "Delete s n k = (err, s1)" using assms(3) by simp
  show ?thesis
  proof (cases "err = None")
    case True
    then have "fst (Delete s n k) = None" and "s1 = snd (Delete s n k)" using p by simp_all
    then have "stored_keys s1 ns = (if ns = n then stored_keys s n - {k} else stored_keys s ns)"
      using Delete_stored_keys [OF assms(1,2), of n k ns] by simp
    then show ?thesis using True OpDelete by auto
  next
    case False
    then have "s1 = s" using p Delete_failed [of s n k] by simp
    then show ?thesis using False OpDelete by auto
  qed
qed

lemma run_live_keys:
  "opened (db s) \<Longrightarrow> db_inv (db s) \<Longrightarrow> run s cs = (h, s') \<Longrightarrow>
   opened (db s') \<and> db_inv (db s') \<and> stored_keys s' ns = live_keys ns (stored_keys s ns) h"
proof (induction cs arbitrary: s h)
  case Nil
  then show ?case by simp
next
  case (Cons c cs)
  obtain err s1 where a: "apply_op s c = (err, s1)" by (cases "apply_op s c")
  obtain h1 s2 where r: "run s1 cs = (h1, s2)" by (cases "run s1 cs")
  from Cons.prems(3) a r have h: "h = (c, err) # h1" and s': "s' = s2" by simp_all
  from r s' have r': "run s1 cs = (h1, s')" by simp
  from apply_op_keeps [OF Cons.prems(1,2) a] have o1: "opened (db s1)" and i1: "db_inv (db s1)"
    by simp_all
  from Cons.IH [OF o1 i1 r'] apply_op_live_keys [OF Cons.prems(1,2) a, of ns h1]
  show ?case by (simp add: h)
qed

lemma run_sample:
  "run new_store sample_calls =
     ([(OpPut ''ns'' ''b'' ''1'', None), (OpPut ''ns'' ''a'' ''2'', None),
       (OpPut ''ns'' [] ''3'', Some (Bolt ErrKeyRequired)), (OpPut ''other'' ''z'' ''4'', None),
       (OpDelete ''ns'' ''b'', None), (OpPut ''ns'' ''c'' ''5'', None)],
      \<lparr>db = \<lparr>opened = True,
             root = [(''ns'', [(''a'', ''2''), (''c'', ''5'')]), (''other'', [(''z'', ''4'')])]\<rparr>\<rparr>)"
  by (simp add: sample_calls_def Put_eq Delete_eq eval_defs)

lemma Put_lookup:
  assumes "db_inv (db s)" and "fst (Put s n j w) = None"
  shows "lookup (snd (Put s n j w)) n' j' =
           (if n' = n \<and> j' = j then Some w else lookup s n' j')"
proof -
  let ?B = "bucket_of (root (db s)) n"
  from assms(2) have e: "snd (Put s n j w) =
      s\<lparr>db := (db s)\<lparr>root := node_put n (node_put j w ?B) (root (db s))\<rparr>\<rparr>"
    by (simp add: Put_eq split: if_splits)
  have B: "map_of ?B j' = lookup s n j'"
    using assms(1) by (simp add: bucket_of_def lookup_def root_get split: option.split)
  show ?thesis using B by (simp add: e lookup_def map_of_node_put)
qed

lemma apply_op_lookup:
  assumes "opened (db s)" and "db_inv (db s)" and "apply_op s c = (err, s1)"
    and "\<not> addresses ns k c"
  shows "lookup s1 ns k = lookup s ns k"
proof (cases c)
  case (OpPut n j w)
  then have p: "Put s n j w = (err, s1)" using assms(3) by simp
  show ?thesis
  proof (cases "err = None")
    case True
    then have "fst (Put s n j w) = None" and "s1 = snd (Put s n j w)" using p by simp_all
    then show ?thesis using Put_lookup [OF assms(2), of n j w ns k] assms(4) OpPut by auto
  next
    case False
    then have "s1 = s" using p Put_failed [of s n j w] by simp
    then show ?thesis by simp
  qed
next
  case (OpDelete n j)
  then have p: "Delete s n j = (err, s1)" using assms(3) by simp
  show ?thesis
  proof (cases "n \<in> namespaces s")
    case True
    have "s1 = snd (Delete s n j)" using p by simp
    then show ?thesis using Delete_lookup(2) [OF assms(1,2) True, of j ns k] assms(4) OpDelete
      by auto
  next
    case False
    then have "s1 = s" using p Delete_absent_namespace [OF assms(1,2) False, of j] by simp
    then show ?thesis by simp
  qed
qed

lemma run_lookup:
  "opened (db s) \<Longrightarrow> db_inv (db s) \<Longrightarrow> run s cs = (h, s') \<Longrightarrow>
   \<forall>c\<in>set cs. \<not> addresses ns k c \<Longrightarrow> lookup s' ns k = lookup s ns k"
proof (induction cs arbitrary: s h)
  case Nil
  then show ?case by simp
next
  case (Cons c cs)
  obtain err s1 where a: "apply_op s c = (err, s1)" by (cases "apply_op s c")
  obtain h1 s2 where r: "run s1 cs = (h1, s2)" by (cases "run s1 cs")
  from Cons.prems(3) a r have s': "s' = s2" by simp
  from r s' have r': "run s1 cs = (h1, s')" by simp
  from Cons.prems(4) have c: "\<not> addresses ns k c" and cs: "\<forall>c\<in>set cs. \<not> addresses ns k c"
    by simp_all
  from apply_op_keeps [OF Cons.prems(1,2) a] have o1: "opened (db s1)" and i1: "db_inv (db s1)"
    by simp_all
  from Cons.IH [OF o1 i1 r' cs] apply_op_lookup [OF Cons.prems(1,2) a c]
  show ?case by simp
qed

lemma lookup_namespace: "lookup s ns k = Some v \<Longrightarrow> ns \<in> namespaces s"
  by (auto simp: lookup_def namespaces_iff split: option.splits)

lemma run_other_calls:
  "run (snd (Put new_store ''ns'' ''k'' ''v'')) other_calls =
     ([(OpPut ''ns'' ''j'' ''w'', None), (OpDelete ''ns'' ''a'', None),
       (OpPut ''other'' ''k'' ''x'', None), (OpDelete ''other'' ''k'', None),
       (OpPut ''ns'' ''a'' ''y'', None)],
      \<lparr>db = \<lparr>opened = True,
             root = [(''ns'', [(''a'', ''y''), (''j'', ''w''), (''k'', ''v'')]), (''other'', [])]\<rparr>\<rparr>)"
  by (simp add: other_calls_def Put_eq Delete_eq eval_defs)

section \<open>Claims\<close>

text \<open>
  C1. Round trip: when \<open>Put\<close> of a value under a key of a namespace returns no error,
  \<open>Get\<close> of that key in that namespace returns the value and no error, on the store the
  \<open>Put\<close> left and on every store that a list of further \<open>Put\<close> and \<open>Delete\<close> calls leaves
  of it, whatever they return, when none of them addresses that key in that namespace.
\<close>

theorem Put_then_Get:
  assumes "Put s ns k v = (None, s1)"
  shows "Get s1 ns k = Inr v
       \<and> (db_inv (db s) \<and> run s1 cs = (h, s2) \<and> (\<forall>c\<in>set cs. \<not> addresses ns k c)
            \<longrightarrow> Get s2 ns k = Inr v)"
proof (intro conjI impI)
  show "Get s1 ns k = Inr v"
    using assms by (auto simp: Put_eq Get_eq node_get_node_put_same split: if_splits)
next
  assume a: "db_inv (db s) \<and> run s1 cs = (h, s2) \<and> (\<forall>c\<in>set cs. \<not> addresses ns k c)"
  from assms have f: "fst (Put s ns k v) = None" and s1: "s1 = snd (Put s ns k v)" by simp_all
  from f have o: "opened (db s)" by (simp add: Put_succeeds)
  have o1: "opened (db s1)" using o by (simp add: s1 opened_Put)
  have i1: "db_inv (db s1)" using a by (simp add: s1 db_inv_Put)
  have l1: "lookup s1 ns k = Some v" using a f Put_lookup [of s ns k v ns k] by (simp add: s1)
  from a have r: "run s1 cs = (h, s2)" and n: "\<forall>c\<in>set cs. \<not> addresses ns k c" by simp_all
  from run_live_keys [OF o1 i1 r] have o2: "opened (db s2)" and i2: "db_inv (db s2)" by simp_all
  have l2: "lookup s2 ns k = Some v" using run_lookup [OF o1 i1 r n] l1 by simp
  show "Get s2 ns k = Inr v"
    using l2 lookup_namespace [OF l2] by (simp add: Get_lookup [OF o2 i2])
qed

theorem Put_then_Get_witness:
  "fst (Put new_store ''ns'' ''k'' ''v'') = None
   \<and> db_inv (db new_store)
   \<and> Get (snd (Put new_store ''ns'' ''k'' ''v'')) ''ns'' ''k'' = Inr ''v''
   \<and> Get (snd (run (snd (Put new_store ''ns'' ''k'' ''v'')) other_calls)) ''ns'' ''k'' = Inr ''v''"
proof -
  let ?s1 = "snd (Put new_store ''ns'' ''k'' ''v'')"
  have f: "fst (Put new_store ''ns'' ''k'' ''v'') = None"
    by (simp add: Put_eq eval_defs)
  then have p: "Put new_store ''ns'' ''k'' ''v'' = (None, ?s1)" by (simp add: prod_eq_iff)
  have n: "\<forall>c\<in>set other_calls. \<not> addresses ''ns'' ''k'' c"
    by (simp add: other_calls_def)
  have r: "run ?s1 other_calls = (fst (run ?s1 other_calls), snd (run ?s1 other_calls))"
    by simp
  from Put_then_Get [OF p, of other_calls "fst (run ?s1 other_calls)" "snd (run ?s1 other_calls)"]
    db_inv_new_store r n f
  show ?thesis by blast
qed

text \<open>
  C2, as the code has it. No method of the store looks at the shape of its arguments; the
  engine does, and it refuses a blank bucket name and a blank key on a write. On an open
  store, \<open>Put\<close> into the empty namespace fails with the engine's bucket-name-required
  error inside the store's create-bucket error, and \<open>Put\<close> of the empty key into a
  non-empty namespace fails with the engine's key-required error; both leave the store
  as it was. The other methods take the empty namespace and the empty key as names that
  no bucket and no entry bears: \<open>Get\<close>, \<open>Delete\<close>, \<open>ListKeys\<close> and \<open>KeysByPrefix\<close> report the
  empty namespace as not found, and in an existing namespace \<open>Get\<close> of the empty key
  reports the key as not found and \<open>Delete\<close> of it succeeds without a change.
\<close>

theorem empty_arguments:
  assumes "opened (db s)" and "db_inv (db s)"
  shows "Put s [] k v = (Some (CreateBucketError [] ErrBucketNameRequired), s)
       \<and> (ns \<noteq> [] \<longrightarrow> Put s ns [] v = (Some (Bolt ErrKeyRequired), s))
       \<and> Get s [] k = Inl (BucketNotFound [])
       \<and> Delete s [] k = (Some (BucketNotFound []), s)
       \<and> ListKeys s [] = Inl (BucketNotFound [])
       \<and> KeysByPrefix s [] p = Inl (BucketNotFound [])
       \<and> (ns \<in> namespaces s \<longrightarrow>
            Get s ns [] = Inl (KeyNotFound []) \<and> Delete s ns [] = (None, s))"
proof -
  have nb: "[] \<notin> namespaces s" using assms(2) by (rule no_blank_namespace)
  then have g: "node_get (root (db s)) [] = None"
    using assms(2) by (simp add: root_get namespaces_iff)
  have 1: "Put s [] k v = (Some (CreateBucketError [] ErrBucketNameRequired), s)"
    using assms(1) by (simp add: Put_eq)
  have 2: "ns \<noteq> [] \<longrightarrow> Put s ns [] v = (Some (Bolt ErrKeyRequired), s)"
    using assms(1) by (simp add: Put_eq)
  have 3: "Get s [] k = Inl (BucketNotFound [])"
    using assms(1) g by (simp add: Get_eq)
  have 4: "Delete s [] k = (Some (BucketNotFound []), s)"
    using assms nb by (rule Delete_absent_namespace)
  have 5: "ListKeys s [] = Inl (BucketNotFound [])"
    using assms(1) g by (simp add: ListKeys_eq)
  have 6: "KeysByPrefix s [] p = Inl (BucketNotFound [])"
    using assms(1) g by (simp add: KeysByPrefix_eq)
  have 7: "ns \<in> namespaces s \<longrightarrow> Get s ns [] = Inl (KeyNotFound []) \<and> Delete s ns [] = (None, s)"
  proof
    assume ns: "ns \<in> namespaces s"
    have k: "[] \<notin> stored_keys s ns" using assms(2) by (rule no_blank_key)
    then have "lookup s ns [] = None" by (simp add: stored_keys_iff)
    then have "Get s ns [] = Inl (KeyNotFound [])" using ns by (simp add: Get_lookup [OF assms])
    moreover have "Delete s ns [] = (None, s)" using assms ns k by (rule Delete_absent_key)
    ultimately show "Get s ns [] = Inl (KeyNotFound []) \<and> Delete s ns [] = (None, s)" ..
  qed
  from 1 2 3 4 5 6 7 show ?thesis by blast
qed

theorem empty_arguments_witness:
  "opened (db sample_store) \<and> db_inv (db sample_store) \<and> ''ns'' \<noteq> [] \<and> ''ns'' \<in> namespaces sample_store
   \<and> Put sample_store [] ''k'' ''v'' = (Some (CreateBucketError [] ErrBucketNameRequired), sample_store)
   \<and> Put sample_store ''ns'' [] ''v'' = (Some (Bolt ErrKeyRequired), sample_store)
   \<and> Get sample_store ''ns'' [] = Inl (KeyNotFound [])
   \<and> Delete sample_store ''ns'' [] = (None, sample_store)"
proof -
  have n: "''ns'' \<in> namespaces sample_store" by (simp add: eval_defs)
  show ?thesis
    using empty_arguments [OF opened_sample db_inv_sample, of "''k''" "''v''" "''ns''" "''v''"]
      n opened_sample db_inv_sample
    by simp
qed

text \<open>
  C2 as stated fails: on the store of a new file, \<open>Put\<close> with the empty namespace and
  \<open>Put\<close> with the empty key return an error and change nothing, where the same call
  with a non-empty namespace and key returns none.
\<close>

theorem Put_empty_arguments_counterexample:
  "Put new_store [] ''k'' ''v'' = (Some (CreateBucketError [] ErrBucketNameRequired), new_store)
   \<and> Put new_store ''ns'' [] ''v'' = (Some (Bolt ErrKeyRequired), new_store)
   \<and> fst (Put new_store ''ns'' ''k'' ''v'') = None"
  by (simp add: Put_eq eval_defs)

text \<open>
  C3. On an open store, \<open>Get\<close> fails with a not-found error exactly when the namespace is
  absent or the key is absent in it, and returns the stored value otherwise; and after
  \<open>Put\<close> and then \<open>Delete\<close> of a key, whatever the two return, \<open>Get\<close> of the key fails
  with a not-found error.
\<close>

theorem Get_not_found_iff_absent:
  assumes "opened (db s)" and "db_inv (db s)"
  shows "((\<exists>e. Get s ns k = Inl e \<and> is_not_found e) \<longleftrightarrow>
            (ns \<notin> namespaces s \<or> k \<notin> stored_keys s ns))
       \<and> (ns \<in> namespaces s \<and> k \<in> stored_keys s ns \<longrightarrow>
            (\<exists>v. lookup s ns k = Some v \<and> Get s ns k = Inr v))
       \<and> (\<exists>e. Get (snd (Delete (snd (Put s ns k v)) ns k)) ns k = Inl e \<and> is_not_found e)"
proof (intro conjI)
  show "(\<exists>e. Get s ns k = Inl e \<and> is_not_found e) \<longleftrightarrow>
            (ns \<notin> namespaces s \<or> k \<notin> stored_keys s ns)"
    by (auto simp: Get_lookup [OF assms] stored_keys_iff split: option.splits)
  show "ns \<in> namespaces s \<and> k \<in> stored_keys s ns \<longrightarrow>
            (\<exists>v. lookup s ns k = Some v \<and> Get s ns k = Inr v)"
    by (auto simp: Get_lookup [OF assms] stored_keys_iff split: option.splits)
  have "opened (db (snd (Put s ns k v)))" using assms(1) by (simp add: opened_Put)
  moreover have "db_inv (db (snd (Put s ns k v)))" using assms(2) by (rule db_inv_Put)
  ultimately show "\<exists>e. Get (snd (Delete (snd (Put s ns k v)) ns k)) ns k = Inl e \<and> is_not_found e"
    by (rule Delete_then_Get)
qed

theorem Get_not_found_iff_absent_witness:
  "opened (db sample_store) \<and> db_inv (db sample_store)
   \<and> Get sample_store ''ns'' ''user:1'' = Inr ''a''
   \<and> Get sample_store ''ns'' ''user:3'' = Inl (KeyNotFound ''user:3'')
   \<and> Get sample_store ''other'' ''user:1'' = Inl (BucketNotFound ''other'')
   \<and> (\<exists>e. Get (snd (Delete (snd (Put sample_store ''ns'' ''k'' ''v'')) ''ns'' ''k'')) ''ns'' ''k'' = Inl e
          \<and> is_not_found e)"
proof -
  note t = Get_not_found_iff_absent [OF opened_sample db_inv_sample]
  have 1: "Get sample_store ''ns'' ''user:1'' = Inr ''a''"
    using t [of "''ns''" "''user:1''"] by (simp add: eval_defs)
  have 2: "Get sample_store ''ns'' ''user:3'' = Inl (KeyNotFound ''user:3'')"
    by (simp add: Get_eq eval_defs)
  have 3: "Get sample_store ''other'' ''user:1'' = Inl (BucketNotFound ''other'')"
    by (simp add: Get_eq eval_defs)
  show ?thesis using t [of "''ns''" "''k''" "''v''"] 1 2 3 opened_sample db_inv_sample by simp
qed

text \<open>
  C4. After any list of \<open>Put\<close> and \<open>Delete\<close> calls on an open store, \<open>ListKeys\<close> of a
  namespace that exists returns a list: it is in strictly ascending lexicographic order,
  has no duplicates, and its elements are exactly the keys that the namespace held at
  the start or that a successful \<open>Put\<close> added, less those a later successful \<open>Delete\<close>
  removed.
\<close>

theorem ListKeys_ascending_live:
  assumes "opened (db s)" and "db_inv (db s)" and "run s cs = (h, s')" and "ns \<in> namespaces s'"
  shows "\<exists>ks. ListKeys s' ns = Inr ks \<and> sorted_wrt (<) ks \<and> distinct ks
           \<and> set ks = live_keys ns (stored_keys s ns) h"
proof -
  from run_live_keys [OF assms(1,2,3), of ns]
  have o: "opened (db s')" and i: "db_inv (db s')"
    and l: "stored_keys s' ns = live_keys ns (stored_keys s ns) h" by simp_all
  from assms(4) obtain b where b: "map_of (root (db s')) ns = Some b"
    by (auto simp: namespaces_iff)
  then have g: "node_get (root (db s')) ns = Some b" using i by (simp add: root_get)
  have sb: "sorted_keys b" using bucket_inv [OF i b] by (simp add: node_inv_def)
  have "ListKeys s' ns = Inr (keys b)" using o g by (simp add: ListKeys_eq)
  moreover have "sorted_wrt (<) (keys b)" using sb by (simp add: sorted_keys_def)
  moreover have "distinct (keys b)" using sb by (rule sorted_keys_distinct)
  moreover have "set (keys b) = live_keys ns (stored_keys s ns) h"
    using l b by (simp add: stored_keys_def)
  ultimately show ?thesis by blast
qed

theorem ListKeys_ascending_live_witness:
  "opened (db new_store) \<and> db_inv (db new_store)
   \<and> ''ns'' \<in> namespaces (snd (run new_store sample_calls))
   \<and> ListKeys (snd (run new_store sample_calls)) ''ns'' = Inr [''a'', ''c'']
   \<and> live_keys ''ns'' (stored_keys new_store ''ns'') (fst (run new_store sample_calls))
       = {''a'', ''c''}"
proof -
  have o: "opened (db new_store)" by (simp add: new_store_def)
  have n: "''ns'' \<in> namespaces (snd (run new_store sample_calls))"
    by (simp add: run_sample namespaces_def keys_def)
  have r: "run new_store sample_calls = (fst (run new_store sample_calls), snd (run new_store sample_calls))"
    by simp
  from ListKeys_ascending_live [OF o db_inv_new_store r n]
  obtain ks where k: "ListKeys (snd (run new_store sample_calls)) ''ns'' = Inr ks"
    and l: "set ks = live_keys ''ns'' (stored_keys new_store ''ns'') (fst (run new_store sample_calls))"
    by blast
  have e: "ListKeys (snd (run new_store sample_calls)) ''ns'' = Inr [''a'', ''c'']"
    by (simp add: run_sample ListKeys_eq node_get_def keys_def)
  from k e have "ks = [''a'', ''c'']" by simp
  with l have "live_keys ''ns'' (stored_keys new_store ''ns'') (fst (run new_store sample_calls))
       = {''a'', ''c''}" by simp
  with o db_inv_new_store n e show ?thesis by simp
qed

text \<open>
  C5. On an open store, \<open>KeysByPrefix\<close> of an existing namespace returns a list in
  ascending lexicographic order whose elements are exactly the keys of the namespace
  that start with the prefix; of an absent namespace it fails with the not-found error
  of the namespace. The list is computed as the source does, by the seek to the first
  key not below the prefix and the walk while the prefix test holds.
\<close>

theorem KeysByPrefix_exact:
  assumes "opened (db s)" and "db_inv (db s)"
  shows "(ns \<in> namespaces s \<longrightarrow>
            (\<exists>ks. KeysByPrefix s ns p = Inr ks \<and> sorted_wrt (<) ks
               \<and> set ks = {k \<in> stored_keys s ns. \<exists>t. k = p @ t}))
       \<and> (ns \<notin> namespaces s \<longrightarrow>
            KeysByPrefix s ns p = Inl (BucketNotFound ns) \<and> is_not_found (BucketNotFound ns))"
proof (intro conjI impI)
  assume "ns \<in> namespaces s"
  then obtain b where b: "map_of (root (db s)) ns = Some b"
    by (auto simp: namespaces_iff)
  then have g: "node_get (root (db s)) ns = Some b" using assms(2) by (simp add: root_get)
  have sb: "sorted_keys b" using bucket_inv [OF assms(2) b] by (simp add: node_inv_def)
  let ?ks = "filter (\<lambda>k. HasPrefix k p) (keys b)"
  have "KeysByPrefix s ns p = Inr ?ks"
    using assms(1) g by (simp add: KeysByPrefix_eq KeysByPrefix_loop_seek [OF sb])
  moreover have "sorted_wrt (<) ?ks"
    using sb by (simp add: sorted_keys_def sorted_wrt_filter)
  moreover have "set ?ks = {k \<in> stored_keys s ns. \<exists>t. k = p @ t}"
    using b by (auto simp: stored_keys_def HasPrefix_iff_append)
  ultimately show "\<exists>ks. KeysByPrefix s ns p = Inr ks \<and> sorted_wrt (<) ks
               \<and> set ks = {k \<in> stored_keys s ns. \<exists>t. k = p @ t}"
    by blast
next
  assume "ns \<notin> namespaces s"
  then show "KeysByPrefix s ns p = Inl (BucketNotFound ns)"
    using assms by (simp add: KeysByPrefix_eq root_get namespaces_iff)
next
  show "is_not_found (BucketNotFound ns)" by simp
qed

theorem KeysByPrefix_exact_witness:
  "opened (db sample_store) \<and> db_inv (db sample_store)
   \<and> KeysByPrefix sample_store ''ns'' ''user:'' = Inr [''user:1'', ''user:2'']
   \<and> KeysByPrefix sample_store ''other'' ''user:'' = Inl (BucketNotFound ''other'')"
proof -
  note t = KeysByPrefix_exact [OF opened_sample db_inv_sample]
  have 1: "KeysByPrefix sample_store ''ns'' ''user:'' = Inr [''user:1'', ''user:2'']"
    by (simp add: KeysByPrefix_eq HasPrefix_def eval_defs)
  have 2: "KeysByPrefix sample_store ''other'' ''user:'' = Inl (BucketNotFound ''other'')"
    using t [of "''other''" "''user:''"] by (simp add: eval_defs)
  show ?thesis using 1 2 opened_sample db_inv_sample by simp
qed

text \<open>
  C6, as the code has it. Overwrite: on an open store, for every namespace that is not
  empty, every key that is not empty and not longer than \<open>MaxKeySize\<close>, every first value
  and every second value not longer than \<open>MaxValueSize\<close>, the second \<open>Put\<close> under the key
  returns no error, whatever the first returned, and \<open>Get\<close> of the key then returns the
  second value.
\<close>

theorem Put_Put_Get:
  assumes "opened (db s)" and "ns \<noteq> []" and "k \<noteq> []" and "length k \<le> MaxKeySize"
    and "length v2 \<le> MaxValueSize"
  shows "fst (Put (snd (Put s ns k v1)) ns k v2) = None
       \<and> Get (snd (Put (snd (Put s ns k v1)) ns k v2)) ns k = Inr v2"
proof -
  let ?s1 = "snd (Put s ns k v1)"
  have "opened (db ?s1)" using assms(1) by (simp add: opened_Put)
  then have f: "fst (Put ?s1 ns k v2) = None" using assms(2-5) by (simp add: Put_succeeds)
  then have "Put ?s1 ns k v2 = (None, snd (Put ?s1 ns k v2))" by (simp add: prod_eq_iff)
  then have "Get (snd (Put ?s1 ns k v2)) ns k = Inr v2"
    by (auto simp: Put_eq Get_eq node_get_node_put_same split: if_splits)
  with f show ?thesis by simp
qed

theorem Put_Put_Get_witness:
  "opened (db new_store) \<and> ''ns'' \<noteq> [] \<and> ''k'' \<noteq> [] \<and> length ''k'' \<le> MaxKeySize
   \<and> length ''v2'' \<le> MaxValueSize
   \<and> fst (Put (snd (Put new_store ''ns'' ''k'' ''v1'')) ''ns'' ''k'' ''v2'') = None
   \<and> Get (snd (Put (snd (Put new_store ''ns'' ''k'' ''v1'')) ''ns'' ''k'' ''v2'')) ''ns'' ''k''
       = Inr ''v2''"
proof -
  have o: "opened (db new_store)" by (simp add: new_store_def)
  have a: "''ns'' \<noteq> []" and b: "''k'' \<noteq> []" by simp_all
  have c: "length ''k'' \<le> MaxKeySize" by (simp add: MaxKeySize_def)
  have d: "length ''v2'' \<le> MaxValueSize" by (simp add: MaxValueSize_def)
  from Put_Put_Get [OF o a b c d, of "''v1''"] o a b c d show ?thesis by blast
qed

text \<open>
  C6 as stated, for every namespace and key, fails at the empty namespace: both \<open>Put\<close>
  calls are refused, no bucket is created, and \<open>Get\<close> reports the namespace as not found
  instead of returning the second value.
\<close>

theorem overwrite_counterexample:
  "Get (snd (Put (snd (Put new_store [] ''k'' ''v1'')) [] ''k'' ''v2'')) [] ''k''
     = Inl (BucketNotFound [])"
  by (simp add: Put_eq Get_eq eval_defs)

text \<open>
  C7. On an open store, \<open>Delete\<close> fails with the error of the missing namespace and
  changes nothing when the namespace is absent; it succeeds and changes nothing when the
  namespace exists and the key is absent in it; and when the namespace exists it
  succeeds and leaves a store in which that entry is gone and every other entry and the
  namespaces are as before.
\<close>

theorem Delete_cases:
  assumes "opened (db s)" and "db_inv (db s)"
  shows "(ns \<notin> namespaces s \<longrightarrow> Delete s ns k = (Some (BucketNotFound ns), s))
       \<and> (ns \<in> namespaces s \<longrightarrow> k \<notin> stored_keys s ns \<longrightarrow> Delete s ns k = (None, s))
       \<and> (ns \<in> namespaces s \<longrightarrow>
            (\<exists>s'. Delete s ns k = (None, s') \<and> namespaces s' = namespaces s
               \<and> (\<forall>n j. lookup s' n j = (if n = ns \<and> j = k then None else lookup s n j))))"
proof (intro conjI impI)
  assume "ns \<notin> namespaces s"
  then show "Delete s ns k = (Some (BucketNotFound ns), s)"
    using assms by (rule Delete_absent_namespace [rotated 2])
next
  assume "ns \<in> namespaces s" and "k \<notin> stored_keys s ns"
  then show "Delete s ns k = (None, s)"
    using assms by (simp add: Delete_absent_key)
next
  assume ns: "ns \<in> namespaces s"
  have "Delete s ns k = (None, snd (Delete s ns k))"
    using Delete_lookup(1) [OF assms ns, of k] by (simp add: prod_eq_iff)
  moreover have "namespaces (snd (Delete s ns k)) = namespaces s"
    by (rule Delete_lookup(3) [OF assms ns])
  moreover have "\<forall>n j. lookup (snd (Delete s ns k)) n j = (if n = ns \<and> j = k then None else lookup s n j)"
    using Delete_lookup(2) [OF assms ns] by blast
  ultimately show "\<exists>s'. Delete s ns k = (None, s') \<and> namespaces s' = namespaces s
               \<and> (\<forall>n j. lookup s' n j = (if n = ns \<and> j = k then None else lookup s n j))"
    by blast
qed

theorem Delete_cases_witness:
  "opened (db sample_store) \<and> db_inv (db sample_store)
   \<and> Delete sample_store ''other'' ''user:1'' = (Some (BucketNotFound ''other''), sample_store)
   \<and> Delete sample_store ''ns'' ''user:3'' = (None, sample_store)
   \<and> (\<exists>s'. Delete sample_store ''ns'' ''user:1'' = (None, s')
          \<and> lookup s' ''ns'' ''user:1'' = None \<and> lookup s' ''ns'' ''user:2'' = Some ''b'')"
proof -
  note t = Delete_cases [OF opened_sample db_inv_sample]
  have 1: "Delete sample_store ''other'' ''user:1'' = (Some (BucketNotFound ''other''), sample_store)"
    using t [of "''other''" "''user:1''"] by (simp add: eval_defs)
  have 2: "Delete sample_store ''ns'' ''user:3'' = (None, sample_store)"
    using t [of "''ns''" "''user:3''"] by (simp add: eval_defs)
  have 3: "\<exists>s'. Delete sample_store ''ns'' ''user:1'' = (None, s')
          \<and> lookup s' ''ns'' ''user:1'' = None \<and> lookup s' ''ns'' ''user:2'' = Some ''b''"
  proof -
    from t [of "''ns''" "''user:1''"] obtain s' where
      d: "Delete sample_store ''ns'' ''user:1'' = (None, s')" and
      l: "\<forall>n j. lookup s' n j = (if n = ''ns'' \<and> j = ''user:1'' then None else lookup sample_store n j)"
      by (auto simp: eval_defs)
    have "lookup s' ''ns'' ''user:1'' = None" using l by simp
    moreover have "lookup s' ''ns'' ''user:2'' = Some ''b''" using l by (simp add: eval_defs)
    ultimately show ?thesis using d by blast
  qed
  show ?thesis using 1 2 3 opened_sample db_inv_sample by simp
qed

text \<open>
  C8. Namespace isolation: a \<open>Put\<close> or a \<open>Delete\<close> in one namespace, whatever it returns,
  leaves every \<open>Get\<close>, \<open>ListKeys\<close> and \<open>KeysByPrefix\<close> of any other namespace with the
  result it had before; so a \<open>Put\<close> into one namespace never makes a \<open>Get\<close> in another
  succeed.
\<close>

theorem namespace_isolation:
  assumes "a \<noteq> b"
  shows "Get (snd (Put s a k v)) b j = Get s b j
       \<and> ListKeys (snd (Put s a k v)) b = ListKeys s b
       \<and> KeysByPrefix (snd (Put s a k v)) b p = KeysByPrefix s b p
       \<and> Get (snd (Delete s a k)) b j = Get s b j
       \<and> ListKeys (snd (Delete s a k)) b = ListKeys s b
       \<and> KeysByPrefix (snd (Delete s a k)) b p = KeysByPrefix s b p"
proof -
  have 1: "opened (db (snd (Put s a k v))) = opened (db s)" by (rule opened_Put)
  have 2: "node_get (root (db (snd (Put s a k v)))) b = node_get (root (db s)) b"
    using assms by (simp add: Put_eq node_get_node_put_other)
  have 3: "opened (db (snd (Delete s a k))) = opened (db s)" by (rule opened_Delete)
  have 4: "node_get (root (db (snd (Delete s a k)))) b = node_get (root (db s)) b"
    using assms by (simp add: Delete_eq node_get_node_put_other split: option.split)
  show ?thesis by (simp add: Get_eq ListKeys_eq KeysByPrefix_eq 1 2 3 4)
qed

theorem namespace_isolation_witness:
  "''a'' \<noteq> ''b''
   \<and> fst (Put new_store ''a'' ''k'' ''v'') = None
   \<and> Get (snd (Put new_store ''a'' ''k'' ''v'')) ''a'' ''k'' = Inr ''v''
   \<and> Get (snd (Put new_store ''a'' ''k'' ''v'')) ''b'' ''k'' = Inl (BucketNotFound ''b'')"
proof -
  have h: "''a'' \<noteq> ''b''" by simp
  have g: "Get new_store ''b'' ''k'' = Inl (BucketNotFound ''b'')"
    by (simp add: Get_eq eval_defs)
  have "Get (snd (Put new_store ''a'' ''k'' ''v'')) ''b'' ''k'' = Inl (BucketNotFound ''b'')"
    using namespace_isolation [OF h, of new_store "''k''" "''v''" "''k''"] g by simp
  moreover have "fst (Put new_store ''a'' ''k'' ''v'') = None"
    by (simp add: Put_eq eval_defs)
  moreover have "Get (snd (Put new_store ''a'' ''k'' ''v'')) ''a'' ''k'' = Inr ''v''"
    by (simp add: Put_eq Get_eq eval_defs)
  ultimately show ?thesis using h by simp
qed

text \<open>
  C9, as the code has it. \<open>NewStore\<close> with the engine name \<open>bbolt\<close> hands the path to the
  engine, once: it returns an open store on the buckets of the file when the engine
  opens it, and the store's open error with the engine's message when it does not. With
  any other engine name it fails with the unknown-engine error and hands no path to the
  engine.
\<close>

theorem NewStore_dispatch:
  "(engine = ''bbolt'' \<longrightarrow>
      (case fs path of
         Inr r \<Rightarrow> NewStore fs engine path = (Inr \<lparr>db = \<lparr>opened = True, root = r\<rparr>\<rparr>, [path])
       | Inl msg \<Rightarrow> NewStore fs engine path = (Inl (OpenError msg), [path])))
   \<and> (engine \<noteq> ''bbolt'' \<longrightarrow> NewStore fs engine path = (Inl (UnknownEngine engine), []))"
  by (simp add: NewStore_def NewBboltStore_def bbolt_Open_def split: sum.split)

theorem NewStore_dispatch_witness:
  "NewStore new_file ''bbolt'' ''data.db'' = (Inr new_store, [''data.db''])
   \<and> ''sqlite'' \<noteq> ''bbolt''
   \<and> NewStore new_file ''sqlite'' ''data.db'' = (Inl (UnknownEngine ''sqlite''), [])"
  using NewStore_dispatch [of "''bbolt''" new_file "''data.db''"]
    NewStore_dispatch [of "''sqlite''" new_file "''data.db''"]
  by (simp add: new_file_def new_store_def)

text \<open>
  C9 as stated fails where the file cannot be opened: the engine name is \<open>bbolt\<close> and
  \<open>NewStore\<close> returns the open error, not a store.
\<close>

theorem NewStore_open_failure_counterexample:
  "NewStore no_file ''bbolt'' ''data.db''
     = (Inl (OpenError ''no such file or directory''), [''data.db''])"
  by (simp add: NewStore_def NewBboltStore_def bbolt_Open_def no_file_def)

text \<open>
  C10. The keys with the empty prefix are the keys of the namespace: for every store,
  namespace and state of the database, \<open>KeysByPrefix\<close> with the empty prefix returns
  what \<open>ListKeys\<close> returns, the same list in the same order, or the same error.
\<close>

theorem KeysByPrefix_empty_prefix_is_ListKeys:
  "KeysByPrefix s ns [] = ListKeys s ns"
  by (simp add: KeysByPrefix_def ListKeys_def seek_Nil_key KeysByPrefix_loop_Nil
      ListKeys_loop_eq cong: option.case_cong)

end
